theory Spec2Isabelle
  imports Main "HOL-Library.Word"
begin

unbundle bit_operations_syntax

section \<open>Runtime failures\<close>

text \<open>
  A Go panic ends the call; the model returns it as the left summand. The explicit
  panics of the source carry the offending value, the two implicit ones are the
  runtime's nil dereference and its index check.
\<close>

datatype panic =
    InvalidLogLevel "32 word"
  | InvalidLogrusLogLevel "32 word"
  | UnableToGetLevel
  | NilDereference
  | IndexOutOfRange

section \<open>dlog: log levels\<close>

text \<open>\<^verbatim>\<open>type LogLevel uint32\<close>, with the five constants numbered by \<^verbatim>\<open>iota\<close>.\<close>

type_synonym LogLevel = "32 word"

definition LogLevelError :: LogLevel where "LogLevelError = 0"
definition LogLevelWarn :: LogLevel where "LogLevelWarn = 1"
definition LogLevelInfo :: LogLevel where "LogLevelInfo = 2"
definition LogLevelDebug :: LogLevel where "LogLevelDebug = 3"
definition LogLevelTrace :: LogLevel where "LogLevelTrace = 4"

section \<open>dlog: the logrus backend\<close>

text \<open>
  \<^verbatim>\<open>logrus.Level\<close> is a \<^verbatim>\<open>uint32\<close> of the logrus library, which numbers its constants
  \<^verbatim>\<open>PanicLevel Level = iota\<close>, \<^verbatim>\<open>FatalLevel\<close>, \<^verbatim>\<open>ErrorLevel\<close>, \<^verbatim>\<open>WarnLevel\<close>,
  \<^verbatim>\<open>InfoLevel\<close>, \<^verbatim>\<open>DebugLevel\<close>, \<^verbatim>\<open>TraceLevel\<close>.
\<close>

type_synonym logrus_Level = "32 word"

definition PanicLevel :: logrus_Level where "PanicLevel = 0"
definition FatalLevel :: logrus_Level where "FatalLevel = 1"
definition ErrorLevel :: logrus_Level where "ErrorLevel = 2"
definition WarnLevel :: logrus_Level where "WarnLevel = 3"
definition InfoLevel :: logrus_Level where "InfoLevel = 4"
definition DebugLevel :: logrus_Level where "DebugLevel = 5"
definition TraceLevel :: logrus_Level where "TraceLevel = 6"

text \<open>The table \<^verbatim>\<open>var dlogLevel2logrusLevel = [5]logrus.Level{...}\<close>.\<close>

definition dlogLevel2logrusLevel :: "logrus_Level list" where
  "dlogLevel2logrusLevel = [ErrorLevel, WarnLevel, InfoLevel, DebugLevel, TraceLevel]"

text \<open>Indexing an array: Go checks the index and panics when it is out of range.\<close>

definition index :: "'a list \<Rightarrow> nat \<Rightarrow> panic + 'a" where
  "index xs i = (if i < length xs then Inr (xs ! i) else Inl IndexOutOfRange)"

text \<open>
  \<^verbatim>\<open>func logrusLevel(level LogLevel) logrus.Level\<close>: the guard panics with
  \<^verbatim>\<open>invalid LogLevel: %d\<close>, otherwise the table is read at \<^verbatim>\<open>level\<close>.
\<close>

definition logrusLevel :: "LogLevel \<Rightarrow> panic + logrus_Level" where
  "logrusLevel level =
     (if level > LogLevelTrace then Inl (InvalidLogLevel level)
      else index dlogLevel2logrusLevel (unat level))"

text \<open>
  The wrapper embeds the interface \<^verbatim>\<open>loggerOrEntry\<close>. \<^verbatim>\<open>MaxLevel\<close> switches on its
  dynamic type: a \<^verbatim>\<open>*logrus.Logger\<close>, a \<^verbatim>\<open>*logrus.Entry\<close>, another implementation
  (of which only whether its \<^verbatim>\<open>Panic\<close> method panics matters here), or the nil
  interface. Pointers are options; of the logrus structs only the fields that the
  wrapper and its hook read or write are kept: the logger's \<^verbatim>\<open>Level\<close>, and the entry's
  \<^verbatim>\<open>Logger\<close> and \<^verbatim>\<open>Caller\<close>, a \<^verbatim>\<open>*runtime.Frame\<close> with the fields that name a call
  site.
\<close>

record runtime_Frame =
  Function :: string
  File :: string
  Line :: int

record logrus_Logger =
  Level :: logrus_Level

record logrus_Entry =
  Logger :: "logrus_Logger option"
  Caller :: "runtime_Frame option"

datatype loggerOrEntry =
    LogrusLogger "logrus_Logger option"
  | LogrusEntry "logrus_Entry option"
  | OtherLoggerOrEntry bool
  | NilLoggerOrEntry

record logrusWrapper =
  loggerOrEntry :: loggerOrEntry

text \<open>
  The type switch of \<^verbatim>\<open>MaxLevel\<close>, which sets \<^verbatim>\<open>ll\<close>. Reading \<^verbatim>\<open>l.Logger\<close>
  through a nil entry is the runtime's panic. The default case calls \<^verbatim>\<open>l.Panic\<close>:
  on the nil interface the call itself is the runtime's nil dereference; on another
  implementation the method panics, or it returns and \<^verbatim>\<open>ll\<close> stays nil.
\<close>

definition MaxLevel_switch :: "loggerOrEntry \<Rightarrow> panic + logrus_Logger option" where
  "MaxLevel_switch l =
     (case l of
        LogrusLogger p \<Rightarrow> Inr p
      | LogrusEntry e \<Rightarrow> (case e of None \<Rightarrow> Inl NilDereference | Some e' \<Rightarrow> Inr (Logger e'))
      | OtherLoggerOrEntry panics \<Rightarrow> (if panics then Inl UnableToGetLevel else Inr None)
      | NilLoggerOrEntry \<Rightarrow> Inl NilDereference)"

text \<open>\<^verbatim>\<open>ll.GetLevel()\<close> loads the level through the pointer.\<close>

definition GetLevel :: "logrus_Logger option \<Rightarrow> panic + logrus_Level" where
  "GetLevel ll = (case ll of None \<Rightarrow> Inl NilDereference | Some lg \<Rightarrow> Inr (Level lg))"

text \<open>
  \<^verbatim>\<open>for i, l := range dlogLevel2logrusLevel { if l == lrv { return LogLevel(i) } }\<close>:
  the first index whose entry is \<^verbatim>\<open>lrv\<close>, converted to a \<^verbatim>\<open>LogLevel\<close>; \<open>None\<close> when the
  loop falls through.
\<close>

fun MaxLevel_range :: "logrus_Level list \<Rightarrow> nat \<Rightarrow> logrus_Level \<Rightarrow> LogLevel option" where
  "MaxLevel_range [] i lrv = None"
| "MaxLevel_range (l # ls) i lrv =
     (if l = lrv then Some (of_nat i) else MaxLevel_range ls (Suc i) lrv)"

definition MaxLevel :: "logrusWrapper \<Rightarrow> panic + LogLevel" where
  "MaxLevel l =
     (case MaxLevel_switch (loggerOrEntry l) of
        Inl p \<Rightarrow> Inl p
      | Inr ll \<Rightarrow>
          (case GetLevel ll of
             Inl p \<Rightarrow> Inl p
           | Inr lrv \<Rightarrow>
               (case MaxLevel_range dlogLevel2logrusLevel 0 lrv of
                  Some i \<Rightarrow> Inr i
                | None \<Rightarrow> Inl (InvalidLogrusLogLevel lrv))))"

section \<open>dexec: the interrupt capability on Windows\<close>

text \<open>
  \<^verbatim>\<open>dexec.Cmd\<close> embeds a \<^verbatim>\<open>*exec.Cmd\<close>, whose field \<^verbatim>\<open>SysProcAttr\<close> points to a
  \<^verbatim>\<open>syscall.SysProcAttr\<close> with the \<^verbatim>\<open>uint32\<close> field \<^verbatim>\<open>CreationFlags\<close>. Each pointer
  is an option; \<^verbatim>\<open>c.SysProcAttr\<close> is the promoted field \<^verbatim>\<open>c.Cmd.SysProcAttr\<close>.
  \<^verbatim>\<open>windows.CREATE_NEW_PROCESS_GROUP\<close> is the Windows API's process creation flag
  \<^verbatim>\<open>0x00000200\<close>.
\<close>

record syscall_SysProcAttr =
  CreationFlags :: "32 word"

record exec_Cmd =
  SysProcAttr :: "syscall_SysProcAttr option"

record dexec_Cmd =
  Cmd :: "exec_Cmd option"

definition CREATE_NEW_PROCESS_GROUP :: "32 word" where
  "CREATE_NEW_PROCESS_GROUP = 0x00000200"

text \<open>\<^verbatim>\<open>func (c *Cmd) canInterrupt() bool\<close>: the conjunction, left to right.\<close>

definition canInterrupt :: "dexec_Cmd option \<Rightarrow> bool" where
  "canInterrupt c =
     (case c of
        None \<Rightarrow> False
      | Some c' \<Rightarrow>
          (case Cmd c' of
             None \<Rightarrow> False
           | Some cmd \<Rightarrow>
               (case SysProcAttr cmd of
                  None \<Rightarrow> False
                | Some attr \<Rightarrow> (CreationFlags attr AND CREATE_NEW_PROCESS_GROUP) \<noteq> 0)))"

section \<open>sigint: the soft interrupt on Windows\<close>

text \<open>
  \<^verbatim>\<open>os.Process\<close> with its \<^verbatim>\<open>Pid int\<close>; \<^verbatim>\<open>uint32(proc.Pid)\<close> keeps the low 32 bits.
  \<^verbatim>\<open>windows.CTRL_BREAK_EVENT\<close> is the Windows API's control event 1. The error returned
  is \<^verbatim>\<open>&os.SyscallError{Syscall: ..., Err: err}\<close>.
\<close>

record os_Process =
  Pid :: int

definition CTRL_BREAK_EVENT :: "32 word" where
  "CTRL_BREAK_EVENT = 1"

datatype 'e os_SyscallError = SyscallError (Syscall: string) (Err: 'e)

text \<open>
  The platform call \<^verbatim>\<open>windows.GenerateConsoleCtrlEvent(ctrlEvent, processGroupID)\<close> is
  outside the program: it is a parameter that takes the state of the operating system
  and returns its error (\<open>None\<close> for nil) with the new state.
\<close>

type_synonym ('e, 'w) GenerateConsoleCtrlEvent =
  "32 word \<Rightarrow> 32 word \<Rightarrow> 'w \<Rightarrow> 'e option \<times> 'w"

text \<open>\<^verbatim>\<open>func SendInterrupt(proc *os.Process) error\<close>; reading \<^verbatim>\<open>proc.Pid\<close> through nil panics.\<close>

definition SendInterrupt ::
  "('e, 'w) GenerateConsoleCtrlEvent \<Rightarrow> os_Process option \<Rightarrow> 'w
    \<Rightarrow> panic + ('e os_SyscallError option \<times> 'w)" where
  "SendInterrupt GenerateConsoleCtrlEvent proc w =
     (case proc of
        None \<Rightarrow> Inl NilDereference
      | Some p \<Rightarrow>
          (case GenerateConsoleCtrlEvent CTRL_BREAK_EVENT (word_of_int (Pid p)) w of
             (Some err, w') \<Rightarrow> Inr (Some (SyscallError ''GenerateConsoleCtrlEvent'' err), w')
           | (None, w') \<Rightarrow> Inr (None, w')))"

section \<open>dlog: the logger interfaces\<close>

text \<open>
  A value of Go's \<^verbatim>\<open>any\<close> is a string (a message, a format) or some other value. A
  method call takes the state of the world outside the program (the log sinks) and
  returns its result, or the panic it ends with, and the new state.
\<close>

datatype 'a any = AnyString string | AnyValue 'a

type_synonym ('r, 'w) call = "'w \<Rightarrow> (panic + 'r) \<times> 'w"

text \<open>
  The interface \<^verbatim>\<open>GenericLogger\<close> (which embeds \<^verbatim>\<open>PlainLogger\<close>): a value of it is
  its seven methods. \<^verbatim>\<open>StdLogger\<close> returns a \<^verbatim>\<open>*log.Logger\<close>, of type \<open>'s\<close> here;
  \<^verbatim>\<open>WithField\<close> returns a logger again, which may be the nil interface.
\<close>

codatatype ('a, 's, 'w) GenericLogger = GenericLogger
  (Helper: "(unit, 'w) call")
  (LogMessage: "LogLevel \<Rightarrow> string \<Rightarrow> (unit, 'w) call")
  (StdLogger: "LogLevel \<Rightarrow> ('s, 'w) call")
  (Log: "LogLevel \<Rightarrow> 'a any list \<Rightarrow> (unit, 'w) call")
  (Logf: "LogLevel \<Rightarrow> string \<Rightarrow> 'a any list \<Rightarrow> (unit, 'w) call")
  (Logln: "LogLevel \<Rightarrow> 'a any list \<Rightarrow> (unit, 'w) call")
  (WithField: "string \<Rightarrow> 'a any \<Rightarrow> (('a, 's, 'w) GenericLogger option, 'w) call")

text \<open>Calling a method through an interface value: the nil interface panics.\<close>

definition invoke :: "'g option \<Rightarrow> ('g \<Rightarrow> ('r, 'w) call) \<Rightarrow> ('r, 'w) call" where
  "invoke lg m w = (case lg of None \<Rightarrow> (Inl NilDereference, w) | Some g \<Rightarrow> m g w)"

section \<open>dlog: the split logger\<close>

record ('a, 's, 'w) splitLogger =
  outLog :: "('a, 's, 'w) GenericLogger option"
  errLog :: "('a, 's, 'w) GenericLogger option"

text \<open>\<^verbatim>\<open>type BaseLogger struct { GenericLogger }\<close>, here around a split logger.\<close>

datatype ('a, 's, 'w) BaseLogger =
  BaseLogger (BaseLogger_GenericLogger: "('a, 's, 'w) splitLogger")

definition levelLogger ::
  "('a, 's, 'w) splitLogger \<Rightarrow> LogLevel \<Rightarrow> ('a, 's, 'w) GenericLogger option" where
  "levelLogger l level = (if level = LogLevelError then errLog l else outLog l)"

definition splitLogger_Helper :: "('a, 's, 'w) splitLogger \<Rightarrow> (unit, 'w) call" where
  "splitLogger_Helper l = invoke (outLog l) Helper"

text \<open>\<^verbatim>\<open>LogMessage\<close> calls the sub-logger's \<^verbatim>\<open>Log\<close> with the message as its one argument.\<close>

definition splitLogger_LogMessage ::
  "('a, 's, 'w) splitLogger \<Rightarrow> LogLevel \<Rightarrow> string \<Rightarrow> (unit, 'w) call" where
  "splitLogger_LogMessage l level message =
     invoke (levelLogger l level) (\<lambda>lg. Log lg level [AnyString message])"

definition splitLogger_StdLogger ::
  "('a, 's, 'w) splitLogger \<Rightarrow> LogLevel \<Rightarrow> ('s, 'w) call" where
  "splitLogger_StdLogger l level = invoke (levelLogger l level) (\<lambda>lg. StdLogger lg level)"

definition splitLogger_Log ::
  "('a, 's, 'w) splitLogger \<Rightarrow> LogLevel \<Rightarrow> 'a any list \<Rightarrow> (unit, 'w) call" where
  "splitLogger_Log l level args = invoke (levelLogger l level) (\<lambda>lg. Log lg level args)"

definition splitLogger_Logf ::
  "('a, 's, 'w) splitLogger \<Rightarrow> LogLevel \<Rightarrow> string \<Rightarrow> 'a any list \<Rightarrow> (unit, 'w) call" where
  "splitLogger_Logf l level format args =
     invoke (levelLogger l level) (\<lambda>lg. Logf lg level format args)"

definition splitLogger_Logln ::
  "('a, 's, 'w) splitLogger \<Rightarrow> LogLevel \<Rightarrow> 'a any list \<Rightarrow> (unit, 'w) call" where
  "splitLogger_Logln l level args = invoke (levelLogger l level) (\<lambda>lg. Logln lg level args)"

text \<open>
  \<^verbatim>\<open>WithField\<close> builds the new split logger from \<^verbatim>\<open>l.outLog.WithField(key, value)\<close>
  and then \<^verbatim>\<open>l.errLog.WithField(key, value)\<close>, in this order; a panic of the first call
  ends it before the second.
\<close>

definition splitLogger_WithField ::
  "('a, 's, 'w) splitLogger \<Rightarrow> string \<Rightarrow> 'a any \<Rightarrow> (('a, 's, 'w) BaseLogger, 'w) call" where
  "splitLogger_WithField l key val w =
     (case invoke (outLog l) (\<lambda>lg. WithField lg key val) w of
        (Inl p, w') \<Rightarrow> (Inl p, w')
      | (Inr out, w') \<Rightarrow>
          (case invoke (errLog l) (\<lambda>lg. WithField lg key val) w' of
             (Inl p, w'') \<Rightarrow> (Inl p, w'')
           | (Inr err, w'') \<Rightarrow> (Inr (BaseLogger \<lparr>outLog = out, errLog = err\<rparr>), w'')))"

definition NewSplitLogger ::
  "('a, 's, 'w) GenericLogger option \<Rightarrow> ('a, 's, 'w) GenericLogger option
    \<Rightarrow> ('a, 's, 'w) BaseLogger" where
  "NewSplitLogger outLog' errLog' = BaseLogger \<lparr>outLog = outLog', errLog = errLog'\<rparr>"

text \<open>
  A logger to run the split logger against: it appends each call it receives to the
  world, a list of records, under its name and with the fields it was given.
\<close>

datatype 'a logged = Logged string "(string \<times> 'a any) list" string LogLevel "'a any list"

primcorec recorder ::
  "string \<Rightarrow> (string \<times> 'a any) list \<Rightarrow> ('a, string \<times> LogLevel, 'a logged list) GenericLogger" where
  "Helper (recorder name flds) = (\<lambda>w. (Inr (), w))"
| "LogMessage (recorder name flds) =
     (\<lambda>level message w. (Inr (), w @ [Logged name flds ''LogMessage'' level [AnyString message]]))"
| "StdLogger (recorder name flds) = (\<lambda>level w. (Inr (name, level), w))"
| "Log (recorder name flds) =
     (\<lambda>level args w. (Inr (), w @ [Logged name flds ''Log'' level args]))"
| "Logf (recorder name flds) =
     (\<lambda>level format args w.
        (Inr (), w @ [Logged name flds ''Logf'' level (AnyString format # args)]))"
| "Logln (recorder name flds) =
     (\<lambda>level args w. (Inr (), w @ [Logged name flds ''Logln'' level args]))"
| "WithField (recorder name flds) =
     (\<lambda>key val w. (Inr (Some (recorder name (flds @ [(key, val)]))), w))"

section \<open>dlog: the caller hook of the logrus backend\<close>

text \<open>
  \<^verbatim>\<open>strings.HasPrefix\<close> is \<^verbatim>\<open>len(s) >= len(prefix) && s[:len(prefix)] == prefix\<close>.
\<close>

definition zero_Frame :: runtime_Frame where
  "zero_Frame = \<lparr>Function = [], File = [], Line = 0\<rparr>"

definition HasPrefix :: "string \<Rightarrow> string \<Rightarrow> bool" where
  "HasPrefix s pre = (length s \<ge> length pre \<and> take (length pre) s = pre)"

definition dlogPackageDot :: string where
  "dlogPackageDot = ''github.com/telepresenceio/dlib/v2/dlog.''"

definition logrusPackageDot :: string where
  "logrusPackageDot = ''github.com/sirupsen/logrus.''"

definition maximumCallerDepth :: nat where
  "maximumCallerDepth = 25"

definition minimumCallerDepth :: nat where
  "minimumCallerDepth = 2"

text \<open>
  The goroutine's call stack is a list of program counters, innermost first: entry 0
  is \<^verbatim>\<open>runtime.Callers\<close> itself, entry 1 its caller. \<^verbatim>\<open>runtime.Callers(skip, pcs)\<close>
  skips \<open>skip\<close> entries and fills \<open>pcs\<close> with as many of the rest as fit; the depth it
  returns is the length of the list here. \<^verbatim>\<open>runtime.CallersFrames\<close>, which reads the
  binary's symbol table, is a parameter of \<open>getCaller\<close>.
\<close>

definition Callers :: "nat \<Rightarrow> nat \<Rightarrow> 'pc list \<Rightarrow> 'pc list" where
  "Callers skip n stack = take n (drop skip stack)"

text \<open>
  \<^verbatim>\<open>(*runtime.Frames).Next\<close> on the frames still to come: it returns the next frame and
  whether another call will return a valid one; the zero frame and false when none is
  left.
\<close>

definition Next :: "runtime_Frame list \<Rightarrow> (runtime_Frame \<times> bool) \<times> runtime_Frame list" where
  "Next frames =
     (case frames of
        [] \<Rightarrow> ((zero_Frame, False), [])
      | f # rest \<Rightarrow> ((f, rest \<noteq> []), rest))"

text \<open>
  The loop \<^verbatim>\<open>for f, again := frames.Next(); again; f, again = frames.Next()\<close> of
  \<open>getCaller\<close>, entered with the result of the first \<^verbatim>\<open>Next\<close>.
\<close>

function getCaller_loop ::
  "runtime_Frame \<times> bool \<Rightarrow> runtime_Frame list \<Rightarrow> runtime_Frame option" where
  "getCaller_loop (f, again) frames =
     (if again then
        (if HasPrefix (Function f) logrusPackageDot then
           (case Next frames of (fa, frames') \<Rightarrow> getCaller_loop fa frames')
         else if HasPrefix (Function f) dlogPackageDot then
           (case Next frames of (fa, frames') \<Rightarrow> getCaller_loop fa frames')
         else Some f)
      else None)"
  by pat_completeness auto
termination
  by (relation "measure (\<lambda>((f, again), frames). length frames + (if again then 1 else 0))")
    (auto simp: Next_def split: list.splits)

definition getCaller :: "('pc list \<Rightarrow> runtime_Frame list) \<Rightarrow> 'pc list \<Rightarrow> runtime_Frame option" where
  "getCaller CallersFrames stack =
     (let pcs = Callers minimumCallerDepth maximumCallerDepth stack;
          frames = CallersFrames pcs
      in case Next frames of (fa, frames') \<Rightarrow> getCaller_loop fa frames')"

text \<open>
  \<^verbatim>\<open>func (logrusFixCallerHook) Fire(entry *logrus.Entry) error\<close>. The stack is the
  one \<open>getCaller\<close> would see if called; the entry is updated in place, and the error
  returned is always nil.
\<close>

definition Fire ::
  "('pc list \<Rightarrow> runtime_Frame list) \<Rightarrow> 'pc list \<Rightarrow> logrus_Entry option \<Rightarrow> panic + logrus_Entry" where
  "Fire CallersFrames stack entry =
     (case entry of
        None \<Rightarrow> Inl NilDereference
      | Some e \<Rightarrow>
          (case Caller e of
             None \<Rightarrow> Inr e
           | Some c \<Rightarrow>
               if HasPrefix (Function c) dlogPackageDot
               then Inr (e\<lparr>Caller := getCaller CallersFrames stack\<rparr>)
               else Inr e))"

text \<open>
  Attribution by an explicit frame-skip count, as the specification words it: the caller
  is the frame a fixed number of entries up the stack.
\<close>

definition callerAtSkip :: "nat \<Rightarrow> runtime_Frame list \<Rightarrow> runtime_Frame option" where
  "callerAtSkip skip stack = (if skip < length stack then Some (stack ! skip) else None)"

text \<open>
  A stack as it stands when a log call made through a wrapper function reaches the
  hook: the runtime and the hook, logrus, the wrapper, and the program.
\<close>

definition frame :: "string \<Rightarrow> int \<Rightarrow> runtime_Frame" where
  "frame fn ln = \<lparr>Function = fn, File = ''x.go'', Line = ln\<rparr>"

definition logging_stack :: "string \<Rightarrow> runtime_Frame list" where
  "logging_stack wrapper =
     [frame ''runtime.Callers'' 1,
      frame (dlogPackageDot @ ''getCaller'') 2,
      frame (dlogPackageDot @ ''logrusFixCallerHook.Fire'') 3,
      frame (logrusPackageDot @ ''(*Entry).log'') 4,
      frame wrapper 5,
      frame ''main.run'' 6,
      frame ''main.main'' 7,
      frame ''runtime.main'' 8]"

section \<open>dexec: the process handle and its escalation controller\<close>

text \<open>
  Modelled from the spec: the process handle (\<open>Start\<close>, \<open>Wait\<close>, the stdio relay) and the
  escalation controller of sections 4.3, 4.4, 5 and 7 are not among the source files;
  only \<open>canInterrupt\<close> and \<open>SendInterrupt\<close> are. The tasks of section 5 (the caller, the
  controller, one relay per stream) and the operating system act on one state in
  steps, one event at a time, in any order. A phase is a state of the lifecycle of
  section 3 and of the controller of section 4.4: \<open>Created\<close>, then \<open>Running\<close>, then
  \<open>InterruptSent\<close>, \<open>Killed\<close> or \<open>ExitedNaturally\<close> (the terminal state Exited), or
  \<open>Errored\<close> when the spawn fails, and \<open>Reaped\<close> at the end.
\<close>

datatype phase = Created | Running | InterruptSent | Killed | ExitedNaturally | Errored | Reaped

text \<open>Modelled from the spec: the two streams that are relayed (section 4.3).\<close>

datatype stream = Stdout | Stderr

text \<open>
  Modelled from the spec: what \<open>SignalBridge.SendInterrupt\<close> comes back with (sections
  4.1 and 7): delivered, failed because the process has already exited, or failed with
  an error of the platform.
\<close>

datatype 'e signal_result = Delivered | ProcessAlreadyExited | PlatformError 'e

text \<open>Modelled from the spec: the errors of section 7 that are attached to the result.\<close>

datatype 'e failure = SpawnError 'e | SignalDeliveryError 'e | StdioRelayError stream 'e

text \<open>Modelled from the spec: the events sent to the logging collaborator (section 6).\<close>

datatype log_event =
  ProcessStarted | InterruptWasSent | ProcessKilled | RelayError stream | SignalDeliveryFailed

text \<open>
  Modelled from the spec: the events. \<open>Start\<close> is the caller's \<open>Start()\<close>, with the spawn
  error if the spawn fails; \<open>Cancel\<close> is a cancellation request, with what \<open>SendInterrupt\<close>
  comes back with if the controller calls it; \<open>GraceExpired\<close> is the grace timer firing;
  \<open>ProcessExit\<close> is the operating system reporting the process's exit code and, if
  signaled, the signal; \<open>RelayFinished\<close> is a relay task ending, with its I/O error if
  any; \<open>Wait\<close> is the caller's \<open>Wait()\<close> at its join point.
\<close>

datatype 'e event =
    Start "'e option"
  | Cancel "'e signal_result"
  | GraceExpired
  | ProcessExit int "nat option"
  | RelayFinished stream "'e option"
  | Wait

text \<open>
  Modelled from the spec: the composite result of \<open>Wait\<close> (sections 4.3 and 6): exit
  code, signal when signaled, \<open>killedByController\<close>, and the errors attached.
\<close>

record 'e wait_result =
  exitCode :: int
  signaled :: "nat option"
  killedByController :: bool
  attached :: "'e failure list"

text \<open>
  Modelled from the spec: the configuration of a handle: the command, whose capability
  \<open>canInterrupt\<close> the controller consults, and the grace period.
\<close>

record config =
  handle :: "dexec_Cmd option"
  gracePeriod :: nat

text \<open>
  Modelled from the spec: the state of one process handle. Besides the phase: whether
  the grace timer is armed, the exit reported by the operating system, the relay tasks
  still running, the number of \<open>SendInterrupt\<close> calls and of hard kills made, how often
  the resources of the process were released, the errors attached so far, the events
  logged, and the result \<open>Wait\<close> has returned.
\<close>

record 'e process =
  phase :: phase
  timerArmed :: bool
  exited :: "(int \<times> nat option) option"
  relaysRunning :: "stream set"
  interruptsSent :: nat
  hardKills :: nat
  released :: nat
  failures :: "'e failure list"
  logged :: "log_event list"
  result :: "'e wait_result option"

text \<open>Modelled from the spec: a handle that has been constructed and not started.\<close>

definition created :: "'e process" where
  "created = \<lparr>phase = Created, timerArmed = False, exited = None, relaysRunning = {},
     interruptsSent = 0, hardKills = 0, released = 0, failures = [], logged = [],
     result = None\<rparr>"

text \<open>
  Modelled from the spec: the hard kill of section 4.4, step 2: unconditional
  termination, after which the controller is in \<open>Killed\<close>.
\<close>

definition hardKill :: "'e process \<Rightarrow> 'e process" where
  "hardKill c = c\<lparr>phase := Killed, timerArmed := False, hardKills := hardKills c + 1,
     logged := logged c @ [ProcessKilled]\<rparr>"

text \<open>
  Modelled from the spec: the soft interrupt of section 4.4, steps 1 and 3, with the
  errors of section 7: \<open>SendInterrupt\<close> is called once and the controller is in
  \<open>InterruptSent\<close>; a failure because the process has already exited is discarded, any
  other failure is logged and attached to the result.
\<close>

definition softInterrupt :: "'e signal_result \<Rightarrow> 'e process \<Rightarrow> 'e process" where
  "softInterrupt r c =
     (let c' = c\<lparr>phase := InterruptSent, interruptsSent := interruptsSent c + 1\<rparr>
      in case r of
           Delivered \<Rightarrow> c'\<lparr>logged := logged c' @ [InterruptWasSent]\<rparr>
         | ProcessAlreadyExited \<Rightarrow> c'
         | PlatformError e \<Rightarrow>
             c'\<lparr>failures := failures c' @ [SignalDeliveryError e],
                logged := logged c' @ [SignalDeliveryFailed]\<rparr>)"

text \<open>
  Modelled from the spec: one step of the handle.
  \<^item> \<open>Start\<close> (section 4.3) spawns from \<open>Created\<close>: a spawn error is fatal, otherwise the
    process runs with one relay task per stream.
  \<^item> \<open>Cancel\<close> (section 4.4) acts in \<open>Running\<close> only, the one state the controller leaves
    on cancellation: with \<open>canInterrupt\<close> the soft interrupt, then the grace timer, a
    zero grace period escalating at once; without it the hard kill.
  \<^item> \<open>GraceExpired\<close> escalates from \<open>InterruptSent\<close> to the hard kill.
  \<^item> \<open>ProcessExit\<close> in \<open>Running\<close> or \<open>InterruptSent\<close> is the natural exit; in \<open>Killed\<close> it
    is the exit of the killed process.
  \<^item> \<open>RelayFinished\<close> ends a running relay task, a relay error being logged and attached.
  \<^item> \<open>Wait\<close> (sections 4.3 and 5) returns once the process has exited and no relay task
    is running: the resources are released and the result is the process's own exit
    status with \<open>killedByController\<close>; until then it blocks, which leaves the state as
    it is.
\<close>

fun step :: "config \<Rightarrow> 'e process \<Rightarrow> 'e event \<Rightarrow> 'e process" where
  "step cfg c (Start err) =
     (if phase c = Created then
        (case err of
           Some e \<Rightarrow> c\<lparr>phase := Errored, failures := failures c @ [SpawnError e]\<rparr>
         | None \<Rightarrow> c\<lparr>phase := Running, relaysRunning := {Stdout, Stderr},
                     logged := logged c @ [ProcessStarted]\<rparr>)
      else c)"
| "step cfg c (Cancel r) =
     (if phase c = Running then
        (if canInterrupt (handle cfg) then
           (let c' = softInterrupt r c
            in if gracePeriod cfg = 0 then hardKill c' else c'\<lparr>timerArmed := True\<rparr>)
         else hardKill c)
      else c)"
| "step cfg c GraceExpired =
     (if phase c = InterruptSent \<and> timerArmed c then hardKill c else c)"
| "step cfg c (ProcessExit code sig) =
     (if phase c = Running \<or> phase c = InterruptSent then
        c\<lparr>phase := ExitedNaturally, timerArmed := False, exited := Some (code, sig)\<rparr>
      else if phase c = Killed \<and> exited c = None then c\<lparr>exited := Some (code, sig)\<rparr>
      else c)"
| "step cfg c (RelayFinished s err) =
     (if s \<in> relaysRunning c then
        (case err of
           None \<Rightarrow> c\<lparr>relaysRunning := relaysRunning c - {s}\<rparr>
         | Some e \<Rightarrow> c\<lparr>relaysRunning := relaysRunning c - {s},
                       failures := failures c @ [StdioRelayError s e],
                       logged := logged c @ [RelayError s]\<rparr>)
      else c)"
| "step cfg c Wait =
     (case exited c of
        None \<Rightarrow> c
      | Some (code, sig) \<Rightarrow>
          if (phase c = ExitedNaturally \<or> phase c = Killed) \<and> relaysRunning c = {} then
            c\<lparr>phase := Reaped, released := released c + 1,
              result := Some \<lparr>exitCode = code, signaled = sig,
                               killedByController = (phase c = Killed),
                               attached = failures c\<rparr>\<rparr>
          else c)"

text \<open>Modelled from the spec: a handle's run, the events taken in their order.\<close>

definition run :: "config \<Rightarrow> 'e process \<Rightarrow> 'e event list \<Rightarrow> 'e process" where
  "run cfg c es = foldl (step cfg) c es"

text \<open>
  Modelled from the spec: the number of transitions, along a run, from a phase outside
  a set of phases to one inside it.
\<close>

fun entries :: "phase set \<Rightarrow> config \<Rightarrow> 'e process \<Rightarrow> 'e event list \<Rightarrow> nat" where
  "entries P cfg c [] = 0"
| "entries P cfg c (e # es) =
     (if phase c \<notin> P \<and> phase (step cfg c e) \<in> P then 1 else 0)
     + entries P cfg (step cfg c e) es"

text \<open>Modelled from the spec: a command with and one without group isolation.\<close>

definition isolated :: "dexec_Cmd option" where
  "isolated =
     Some \<lparr>Cmd = Some \<lparr>SysProcAttr = Some \<lparr>CreationFlags = CREATE_NEW_PROCESS_GROUP\<rparr>\<rparr>\<rparr>"

definition not_isolated :: "dexec_Cmd option" where
  "not_isolated = Some \<lparr>Cmd = Some \<lparr>SysProcAttr = None\<rparr>\<rparr>"

section \<open>Invariants of the process handle\<close>

text \<open>
  The predicates below are not part of the model: they are the invariants that the
  proofs about the runs of a handle carry along.
\<close>

text \<open>The phases are ranked along the arrows of the state machine: a step never goes back.\<close>

fun rank :: "phase \<Rightarrow> nat" where
  "rank Created = 0"
| "rank Running = 1"
| "rank InterruptSent = 2"
| "rank Killed = 3"
| "rank ExitedNaturally = 3"
| "rank Errored = 3"
| "rank Reaped = 4"

text \<open>The calls made and the releases done, against the phase reached.\<close>

definition counted :: "'e process \<Rightarrow> bool" where
  "counted c \<longleftrightarrow>
     interruptsSent c \<le> 1 \<and> hardKills c \<le> 1 \<and> released c \<le> 1
     \<and> (rank (phase c) < 2 \<longrightarrow> interruptsSent c = 0)
     \<and> (phase c \<noteq> Killed \<and> phase c \<noteq> Reaped \<longrightarrow> hardKills c = 0)
     \<and> (phase c \<noteq> Reaped \<longrightarrow> released c = 0)"

text \<open>What a state records has happened: exits and ended relays come from events.\<close>

definition joined :: "'e event list \<Rightarrow> 'e process \<Rightarrow> bool" where
  "joined es c \<longleftrightarrow>
     (phase c \<noteq> Killed \<and> phase c \<noteq> ExitedNaturally \<and> phase c \<noteq> Reaped \<longrightarrow> exited c = None)
     \<and> (exited c \<noteq> None \<longrightarrow> (\<exists>code sig. ProcessExit code sig \<in> set es))
     \<and> (phase c \<noteq> Created \<and> phase c \<noteq> Errored \<longrightarrow>
          (\<forall>s. s \<notin> relaysRunning c \<longrightarrow> (\<exists>err. RelayFinished s err \<in> set es)))
     \<and> (result c \<noteq> None \<longrightarrow> exited c \<noteq> None \<and> relaysRunning c = {} \<and> phase c = Reaped)"

text \<open>A started process that has not exited and meets no cancellation stays \<open>Running\<close>.\<close>

definition uncancelled :: "'e process \<Rightarrow> bool" where
  "uncancelled c \<longleftrightarrow> phase c = Running \<and> exited c = None \<and> result c = None"

text \<open>After its natural exit the handle holds the exit status, whatever comes next.\<close>

definition exitedWith :: "int \<Rightarrow> nat option \<Rightarrow> 'e process \<Rightarrow> bool" where
  "exitedWith code sig c \<longleftrightarrow>
     (phase c = ExitedNaturally \<or> phase c = Reaped) \<and> exited c = Some (code, sig)
     \<and> (phase c = Reaped \<longrightarrow> result c \<noteq> None)
     \<and> (\<forall>r. result c = Some r \<longrightarrow>
          exitCode r = code \<and> signaled r = sig \<and> \<not> killedByController r)"



section \<open>Properties of the level conversion\<close>

lemmas LogLevel_defs =
  LogLevelError_def LogLevelWarn_def LogLevelInfo_def LogLevelDebug_def LogLevelTrace_def

lemmas logrus_Level_defs =
  PanicLevel_def FatalLevel_def ErrorLevel_def WarnLevel_def InfoLevel_def DebugLevel_def
  TraceLevel_def

lemma LogLevel_le_Trace_cases:
  fixes level :: LogLevel
  assumes "level \<le> LogLevelTrace"
  shows "level = LogLevelError \<or> level = LogLevelWarn \<or> level = LogLevelInfo
         \<or> level = LogLevelDebug \<or> level = LogLevelTrace"
proof -
  from assms have "unat level \<le> 4"
    by (simp add: LogLevelTrace_def word_le_nat_alt)
  then consider "unat level = 0" | "unat level = 1" | "unat level = 2"
    | "unat level = 3" | "unat level = 4"
    by linarith
  then show ?thesis
    by cases (simp_all add: LogLevel_defs word_unat_eq_iff)
qed

lemma logrusLevel_values:
  "logrusLevel LogLevelError = Inr ErrorLevel"
  "logrusLevel LogLevelWarn = Inr WarnLevel"
  "logrusLevel LogLevelInfo = Inr InfoLevel"
  "logrusLevel LogLevelDebug = Inr DebugLevel"
  "logrusLevel LogLevelTrace = Inr TraceLevel"
  by (simp_all add: logrusLevel_def index_def dlogLevel2logrusLevel_def LogLevel_defs)

lemma MaxLevel_range_values:
  "MaxLevel_range dlogLevel2logrusLevel 0 ErrorLevel = Some LogLevelError"
  "MaxLevel_range dlogLevel2logrusLevel 0 WarnLevel = Some LogLevelWarn"
  "MaxLevel_range dlogLevel2logrusLevel 0 InfoLevel = Some LogLevelInfo"
  "MaxLevel_range dlogLevel2logrusLevel 0 DebugLevel = Some LogLevelDebug"
  "MaxLevel_range dlogLevel2logrusLevel 0 TraceLevel = Some LogLevelTrace"
  by (simp_all add: dlogLevel2logrusLevel_def logrus_Level_defs LogLevel_defs)

lemma MaxLevel_range_logrusLevel:
  assumes "level \<le> LogLevelTrace" and "logrusLevel level = Inr lrv"
  shows "MaxLevel_range dlogLevel2logrusLevel 0 lrv = Some level"
  using LogLevel_le_Trace_cases [OF assms(1)] assms(2)
  by (auto simp: logrusLevel_values MaxLevel_range_values)

text \<open>
  C9. For every \<open>LogLevel\<close> up to \<open>LogLevelTrace\<close> the conversion returns the logrus level
  of the same name (Error, Warn, Info, Debug, Trace) and does not panic; for every
  \<open>LogLevel\<close> above \<open>LogLevelTrace\<close> it panics; and a level that is one of the five
  constants never reaches the panic.
\<close>

theorem logrusLevel_total_on_defined_levels:
  "logrusLevel LogLevelError = Inr ErrorLevel
   \<and> logrusLevel LogLevelWarn = Inr WarnLevel
   \<and> logrusLevel LogLevelInfo = Inr InfoLevel
   \<and> logrusLevel LogLevelDebug = Inr DebugLevel
   \<and> logrusLevel LogLevelTrace = Inr TraceLevel
   \<and> (level \<le> LogLevelTrace \<longrightarrow>
        level \<in> {LogLevelError, LogLevelWarn, LogLevelInfo, LogLevelDebug, LogLevelTrace}
        \<and> \<not> isl (logrusLevel level))
   \<and> (level > LogLevelTrace \<longrightarrow> logrusLevel level = Inl (InvalidLogLevel level))
   \<and> (level \<in> {LogLevelError, LogLevelWarn, LogLevelInfo, LogLevelDebug, LogLevelTrace} \<longrightarrow>
        level \<le> LogLevelTrace \<and> \<not> isl (logrusLevel level))"
proof -
  have le: "level \<le> LogLevelTrace \<Longrightarrow>
      level \<in> {LogLevelError, LogLevelWarn, LogLevelInfo, LogLevelDebug, LogLevelTrace}"
    using LogLevel_le_Trace_cases [of level] by auto
  have ok: "\<not> isl (logrusLevel level)"
    if "level \<in> {LogLevelError, LogLevelWarn, LogLevelInfo, LogLevelDebug, LogLevelTrace}"
    using that by (auto simp: logrusLevel_values)
  have mem: "level \<le> LogLevelTrace"
    if "level \<in> {LogLevelError, LogLevelWarn, LogLevelInfo, LogLevelDebug, LogLevelTrace}"
    using that by (auto simp: LogLevel_defs)
  have gt: "level > LogLevelTrace \<Longrightarrow> logrusLevel level = Inl (InvalidLogLevel level)"
    by (simp add: logrusLevel_def)
  from le ok mem gt show ?thesis
    by (simp add: logrusLevel_values)
qed

theorem logrusLevel_total_on_defined_levels_witness:
  "logrusLevel 3 = Inr 5 \<and> \<not> isl (logrusLevel 3) \<and> logrusLevel 7 = Inl (InvalidLogLevel 7)"
proof -
  have a: "(3 :: LogLevel) \<le> LogLevelTrace" by (simp add: LogLevelTrace_def)
  have b: "(7 :: LogLevel) > LogLevelTrace" by (simp add: LogLevelTrace_def)
  have c: "LogLevelDebug = 3" "DebugLevel = 5" by (simp_all add: LogLevelDebug_def DebugLevel_def)
  from logrusLevel_total_on_defined_levels [of 3] logrusLevel_total_on_defined_levels [of 7] a b c
  show ?thesis by simp
qed

text \<open>
  C10. \<open>MaxLevel\<close> is a left inverse of the conversion: when the logger behind the
  wrapper (the wrapped \<^verbatim>\<open>*logrus.Logger\<close>, or the \<^verbatim>\<open>Logger\<close> of the wrapped
  \<^verbatim>\<open>*logrus.Entry\<close>) has its level set to \<open>logrusLevel level\<close> for a level from Error to
  Trace, \<open>MaxLevel\<close> returns exactly that level.
\<close>

theorem MaxLevel_left_inverse:
  assumes "level \<le> LogLevelTrace"
    and "logrusLevel level = Inr (Level lg)"
    and "loggerOrEntry l = LogrusLogger (Some lg)
         \<or> (\<exists>e. loggerOrEntry l = LogrusEntry (Some e) \<and> Logger e = Some lg)"
  shows "MaxLevel l = Inr level"
proof -
  have r: "MaxLevel_range dlogLevel2logrusLevel 0 (Level lg) = Some level"
    by (rule MaxLevel_range_logrusLevel [OF assms(1,2)])
  from assms(3) have "MaxLevel_switch (loggerOrEntry l) = Inr (Some lg)"
    by (auto simp: MaxLevel_switch_def)
  with r show ?thesis
    by (simp add: MaxLevel_def GetLevel_def)
qed

theorem MaxLevel_left_inverse_witness:
  "logrusLevel 2 = Inr 4
   \<and> MaxLevel \<lparr>loggerOrEntry = LogrusLogger (Some \<lparr>Level = 4\<rparr>)\<rparr> = Inr 2
   \<and> MaxLevel \<lparr>loggerOrEntry = LogrusEntry (Some \<lparr>Logger = Some \<lparr>Level = 4\<rparr>, Caller = None\<rparr>)\<rparr> = Inr 2"
proof -
  have a: "(2 :: LogLevel) \<le> LogLevelTrace" by (simp add: LogLevelTrace_def)
  have b: "logrusLevel 2 = Inr (Level \<lparr>Level = 4\<rparr>)"
    by (simp add: logrusLevel_def index_def dlogLevel2logrusLevel_def LogLevel_defs
        logrus_Level_defs)
  have c: "loggerOrEntry \<lparr>loggerOrEntry = LogrusLogger (Some \<lparr>Level = 4\<rparr>)\<rparr>
           = LogrusLogger (Some \<lparr>Level = 4\<rparr>)
        \<or> (\<exists>e. loggerOrEntry \<lparr>loggerOrEntry = LogrusLogger (Some \<lparr>Level = 4\<rparr>)\<rparr>
                 = LogrusEntry (Some e) \<and> Logger e = Some \<lparr>Level = 4\<rparr>)"
    by simp
  have d: "loggerOrEntry \<lparr>loggerOrEntry = LogrusEntry (Some \<lparr>Logger = Some \<lparr>Level = 4\<rparr>, Caller = None\<rparr>)\<rparr>
           = LogrusLogger (Some \<lparr>Level = 4\<rparr>)
        \<or> (\<exists>e. loggerOrEntry \<lparr>loggerOrEntry = LogrusEntry (Some \<lparr>Logger = Some \<lparr>Level = 4\<rparr>, Caller = None\<rparr>)\<rparr>
                 = LogrusEntry (Some e) \<and> Logger e = Some \<lparr>Level = 4\<rparr>)"
    by simp
  from b MaxLevel_left_inverse [OF a b c] MaxLevel_left_inverse [OF a b d]
  show ?thesis by simp
qed

section \<open>Properties of the Windows process support\<close>

lemma flag_set_iff_bit:
  fixes flags :: "32 word"
  shows "(flags AND CREATE_NEW_PROCESS_GROUP) \<noteq> 0 \<longleftrightarrow> bit flags 9"
proof -
  have "CREATE_NEW_PROCESS_GROUP = push_bit 9 1"
    by (simp add: CREATE_NEW_PROCESS_GROUP_def)
  then show ?thesis
    by (simp only: bit_iff_and_push_bit_not_eq_0)
qed

text \<open>
  C1. \<open>canInterrupt\<close> is true exactly when the handle, its underlying \<^verbatim>\<open>exec.Cmd\<close> and
  that command's \<^verbatim>\<open>SysProcAttr\<close> are all non-nil and the creation flags have the
  \<^verbatim>\<open>CREATE_NEW_PROCESS_GROUP\<close> bit (bit 9) set; so it is false for a nil handle, a nil
  command, nil attributes, and attributes whose flags do not have the bit.
\<close>

theorem canInterrupt_iff_new_process_group:
  "canInterrupt c \<longleftrightarrow>
     (\<exists>c' cmd attr. c = Some c' \<and> Cmd c' = Some cmd \<and> SysProcAttr cmd = Some attr
        \<and> bit (CreationFlags attr) 9)"
  by (auto simp: canInterrupt_def flag_set_iff_bit split: option.splits)

theorem canInterrupt_iff_new_process_group_witness:
  "canInterrupt (Some \<lparr>Cmd = Some \<lparr>SysProcAttr = Some \<lparr>CreationFlags = 0x00000210\<rparr>\<rparr>\<rparr>)
   \<and> \<not> canInterrupt (Some \<lparr>Cmd = Some \<lparr>SysProcAttr = Some \<lparr>CreationFlags = 0x00000010\<rparr>\<rparr>\<rparr>)
   \<and> \<not> canInterrupt (Some \<lparr>Cmd = Some \<lparr>SysProcAttr = None\<rparr>\<rparr>)
   \<and> \<not> canInterrupt (Some \<lparr>Cmd = None\<rparr>)
   \<and> \<not> canInterrupt None"
proof -
  have a: "bit (0x00000210 :: 32 word) 9"
    by (simp add: bit_iff_and_push_bit_not_eq_0)
  have b: "\<not> bit (0x00000010 :: 32 word) 9"
    by (simp add: bit_iff_and_push_bit_not_eq_0)
  show ?thesis
    unfolding canInterrupt_iff_new_process_group by (simp add: a b)
qed

text \<open>
  C2. For a process handle (a non-nil \<^verbatim>\<open>*os.Process\<close>), \<open>SendInterrupt\<close> makes the
  platform call once, with the control event \<^verbatim>\<open>CTRL_BREAK_EVENT\<close> and, as the process
  group, the process's PID (its low 32 bits, which are the PID itself when it fits a
  \<^verbatim>\<open>uint32\<close>). It returns an \<^verbatim>\<open>os.SyscallError\<close> that names
  \<^verbatim>\<open>GenerateConsoleCtrlEvent\<close> and wraps the platform error exactly when the call
  errors, and nil when it succeeds; the state it leaves is the one the platform call
  left, nothing else being done.
\<close>

theorem SendInterrupt_break_event:
  assumes "proc = Some p"
    and "gcce CTRL_BREAK_EVENT (word_of_int (Pid p)) w = (e, w')"
  shows "\<exists>r. SendInterrupt gcce proc w = Inr (r, w')
           \<and> r = map_option (SyscallError ''GenerateConsoleCtrlEvent'') e
           \<and> (r = None \<longleftrightarrow> e = None)
           \<and> (0 \<le> Pid p \<and> Pid p < 2 ^ 32 \<longrightarrow>
                uint (word_of_int (Pid p) :: 32 word) = Pid p)"
proof -
  have "uint (word_of_int (Pid p) :: 32 word) = Pid p" if "0 \<le> Pid p" "Pid p < 2 ^ 32"
    using that by (simp add: uint_word_of_int)
  with assms show ?thesis
    by (cases e) (simp_all add: SendInterrupt_def)
qed

theorem SendInterrupt_break_event_witness:
  "SendInterrupt (\<lambda>ev grp w. (if grp = 4242 then None else Some (6 :: nat), w @ [(ev, grp)]))
       (Some \<lparr>Pid = 4242\<rparr>) [] = Inr (None, [(1, 4242)])
   \<and> SendInterrupt (\<lambda>ev grp w. (if grp = 4242 then None else Some (6 :: nat), w @ [(ev, grp)]))
       (Some \<lparr>Pid = 77\<rparr>) [] = Inr (Some (SyscallError ''GenerateConsoleCtrlEvent'' 6), [(1, 77)])
   \<and> uint (word_of_int 4242 :: 32 word) = 4242"
proof -
  let ?g = "\<lambda>(ev :: 32 word) (grp :: 32 word) w.
      (if grp = 4242 then None else Some (6 :: nat), w @ [(ev, grp)])"
  have a: "?g CTRL_BREAK_EVENT (word_of_int (Pid \<lparr>Pid = 4242\<rparr>)) [] = (None, [(1, 4242)])"
    by (simp add: CTRL_BREAK_EVENT_def)
  have b: "?g CTRL_BREAK_EVENT (word_of_int (Pid \<lparr>Pid = 77\<rparr>)) [] = (Some 6, [(1, 77)])"
    by (simp add: CTRL_BREAK_EVENT_def)
  from SendInterrupt_break_event
      [where gcce = ?g and proc = "Some \<lparr>Pid = 4242\<rparr>" and p = "\<lparr>Pid = 4242\<rparr>" and w = "[]",
        OF refl a]
    SendInterrupt_break_event
      [where gcce = ?g and proc = "Some \<lparr>Pid = 77\<rparr>" and p = "\<lparr>Pid = 77\<rparr>" and w = "[]",
        OF refl b]
  show ?thesis by auto
qed

section \<open>Properties of the split logger\<close>

text \<open>
  C8. For every log level, each of \<open>Log\<close>, \<open>Logf\<close>, \<open>Logln\<close>, \<open>LogMessage\<close> and
  \<open>StdLogger\<close> of the split logger is the call of the same level and arguments on
  \<open>errLog\<close> when the level is \<open>LogLevelError\<close> and on \<open>outLog\<close> for every other level
  (\<open>LogMessage\<close> arriving as the sub-logger's \<open>Log\<close> of the message); \<open>WithField\<close> gives
  a split logger whose two sub-loggers are \<open>outLog\<close> and \<open>errLog\<close> with the same key and
  value applied.
\<close>

theorem splitLogger_dispatch:
  "levelLogger l level = (if level = LogLevelError then errLog l else outLog l)
   \<and> splitLogger_Log l level args w =
       invoke (if level = LogLevelError then errLog l else outLog l)
         (\<lambda>lg. Log lg level args) w
   \<and> splitLogger_Logf l level format args w =
       invoke (if level = LogLevelError then errLog l else outLog l)
         (\<lambda>lg. Logf lg level format args) w
   \<and> splitLogger_Logln l level args w =
       invoke (if level = LogLevelError then errLog l else outLog l)
         (\<lambda>lg. Logln lg level args) w
   \<and> splitLogger_LogMessage l level message w =
       invoke (if level = LogLevelError then errLog l else outLog l)
         (\<lambda>lg. Log lg level [AnyString message]) w
   \<and> splitLogger_StdLogger l level w =
       invoke (if level = LogLevelError then errLog l else outLog l)
         (\<lambda>lg. StdLogger lg level) w
   \<and> (outLog l = Some out \<and> errLog l = Some err
        \<and> WithField out key val w = (Inr out', w1) \<and> WithField err key val w1 = (Inr err', w2)
        \<longrightarrow> splitLogger_WithField l key val w
              = (Inr (BaseLogger \<lparr>outLog = out', errLog = err'\<rparr>), w2))"
  by (simp add: levelLogger_def splitLogger_Log_def splitLogger_Logf_def splitLogger_Logln_def
      splitLogger_LogMessage_def splitLogger_StdLogger_def splitLogger_WithField_def invoke_def)

theorem splitLogger_dispatch_witness:
  "splitLogger_Log \<lparr>outLog = Some (recorder ''out'' []), errLog = Some (recorder ''err'' [])\<rparr>
       LogLevelError [AnyValue (5 :: nat)] []
     = (Inr (), [Logged ''err'' [] ''Log'' 0 [AnyValue 5]])
   \<and> splitLogger_Logf \<lparr>outLog = Some (recorder ''out'' []), errLog = Some (recorder ''err'' [])\<rparr>
       7 ''%d'' [AnyValue (5 :: nat)] []
     = (Inr (), [Logged ''out'' [] ''Logf'' 7 [AnyString ''%d'', AnyValue 5]])
   \<and> splitLogger_LogMessage \<lparr>outLog = None, errLog = Some (recorder ''err'' [])\<rparr>
       LogLevelWarn ''m'' ([] :: nat logged list)
     = (Inl NilDereference, [])
   \<and> splitLogger_WithField
       \<lparr>outLog = Some (recorder ''out'' []), errLog = Some (recorder ''err'' [])\<rparr>
       ''k'' (AnyValue (1 :: nat)) []
     = (Inr (BaseLogger \<lparr>outLog = Some (recorder ''out'' [(''k'', AnyValue 1)]),
                          errLog = Some (recorder ''err'' [(''k'', AnyValue 1)])\<rparr>), [])"
proof -
  let ?l = "\<lparr>outLog = Some (recorder ''out'' []),
             errLog = Some (recorder ''err'' [] :: (nat, _, _) GenericLogger)\<rparr>"
  let ?n = "\<lparr>outLog = None, errLog = Some (recorder ''err'' [] :: (nat, _, _) GenericLogger)\<rparr>"
  have a: "splitLogger_Log ?l LogLevelError [AnyValue 5] []
      = (Inr (), [Logged ''err'' [] ''Log'' 0 [AnyValue 5]])"
    using splitLogger_dispatch [where l = ?l and level = LogLevelError]
    by (simp add: invoke_def LogLevelError_def)
  have b: "splitLogger_Logf ?l 7 ''%d'' [AnyValue 5] []
      = (Inr (), [Logged ''out'' [] ''Logf'' 7 [AnyString ''%d'', AnyValue 5]])"
    using splitLogger_dispatch [where l = ?l and level = 7]
    by (simp add: invoke_def LogLevelError_def)
  have c: "splitLogger_LogMessage ?n LogLevelWarn ''m'' [] = (Inl NilDereference, [])"
    using splitLogger_dispatch [where l = ?n and level = LogLevelWarn]
    by (simp add: invoke_def LogLevel_defs)
  have d: "splitLogger_WithField ?l ''k'' (AnyValue 1) []
      = (Inr (BaseLogger \<lparr>outLog = Some (recorder ''out'' [(''k'', AnyValue 1)]),
                           errLog = Some (recorder ''err'' [(''k'', AnyValue 1)])\<rparr>), [])"
    using splitLogger_dispatch
      [where l = ?l and out = "recorder ''out'' []" and err = "recorder ''err'' []"
        and key = "''k''" and val = "AnyValue 1" and w = "[]" and ?w1.0 = "[]" and ?w2.0 = "[]"
        and out' = "Some (recorder ''out'' [(''k'', AnyValue 1)])"
        and err' = "Some (recorder ''err'' [(''k'', AnyValue 1)])"]
    by simp
  from a b c d show ?thesis by simp
qed

section \<open>Properties of the caller hook\<close>

lemma getCaller_loop_find:
  "(case Next frames of (fa, frames') \<Rightarrow> getCaller_loop fa frames')
   = find (\<lambda>f. \<not> HasPrefix (Function f) logrusPackageDot
                \<and> \<not> HasPrefix (Function f) dlogPackageDot) (butlast frames)"
proof (induction frames)
  case Nil
  show ?case by (simp add: Next_def)
next
  case (Cons f rest)
  show ?case
  proof (cases "rest = []")
    case True
    then show ?thesis by (simp add: Next_def)
  next
    case False
    with Cons show ?thesis by (simp add: Next_def)
  qed
qed

lemma getCaller_find:
  "getCaller CallersFrames stack
   = find (\<lambda>f. \<not> HasPrefix (Function f) logrusPackageDot
                \<and> \<not> HasPrefix (Function f) dlogPackageDot)
       (butlast (CallersFrames (take 25 (drop 2 stack))))"
  by (simp add: getCaller_def getCaller_loop_find Callers_def minimumCallerDepth_def
      maximumCallerDepth_def del: getCaller_loop.simps)

lemma HasPrefix_append [simp]: "HasPrefix (pre @ s) pre"
  by (simp add: HasPrefix_def)

lemma getCaller_logging_stack:
  "getCaller (\<lambda>pcs. pcs) (logging_stack wrapper)
   = (if HasPrefix wrapper logrusPackageDot \<or> HasPrefix wrapper dlogPackageDot
      then Some (frame ''main.run'' 6) else Some (frame wrapper 5))"
proof -
  have a: "\<not> HasPrefix ''main.run'' logrusPackageDot" "\<not> HasPrefix ''main.run'' dlogPackageDot"
    by (simp_all add: HasPrefix_def logrusPackageDot_def dlogPackageDot_def)
  have b: "butlast (take 25 (drop 2 (logging_stack wrapper)))
      = [frame (dlogPackageDot @ ''logrusFixCallerHook.Fire'') 3,
         frame (logrusPackageDot @ ''(*Entry).log'') 4,
         frame wrapper 5, frame ''main.run'' 6, frame ''main.main'' 7]"
    by (simp add: logging_stack_def)
  show ?thesis
    unfolding getCaller_find b by (simp add: frame_def a)
qed

lemma callerAtSkip_logging_stack:
  assumes "callerAtSkip skip (logging_stack wrapper) = Some f"
  shows "Line f = int skip + 1"
proof -
  from assms have "skip < 8" and f: "f = logging_stack wrapper ! skip"
    by (auto simp: callerAtSkip_def logging_stack_def split: if_splits)
  then consider "skip = 0" | "skip = 1" | "skip = 2" | "skip = 3" | "skip = 4" | "skip = 5"
    | "skip = 6" | "skip = 7"
    by linarith
  then show ?thesis
    by cases (simp_all add: f logging_stack_def frame_def)
qed

text \<open>
  C3, as the specification states it, fails: the caller the hook attributes is not the
  frame at any fixed skip count. For a log call through a dlog function the caller is
  the frame above it, for the same call through a wrapper outside dlog the wrapper
  itself; the two stacks differ in one function name only.
\<close>

theorem getCaller_not_frame_skip_counterexample:
  "getCaller (\<lambda>pcs. pcs) (logging_stack (dlogPackageDot @ ''Infof'')) = Some (frame ''main.run'' 6)
   \<and> getCaller (\<lambda>pcs. pcs) (logging_stack ''example.com/app.logf'')
       = Some (frame ''example.com/app.logf'' 5)
   \<and> \<not> (\<exists>skip. \<forall>wrapper.
          getCaller (\<lambda>pcs. pcs) (logging_stack wrapper) = callerAtSkip skip (logging_stack wrapper))"
proof -
  have n: "\<not> HasPrefix ''example.com/app.logf'' logrusPackageDot"
    "\<not> HasPrefix ''example.com/app.logf'' dlogPackageDot"
    by (simp_all add: HasPrefix_def logrusPackageDot_def dlogPackageDot_def)
  have a: "getCaller (\<lambda>pcs. pcs) (logging_stack (dlogPackageDot @ ''Infof''))
      = Some (frame ''main.run'' 6)"
    by (simp add: getCaller_logging_stack)
  have b: "getCaller (\<lambda>pcs. pcs) (logging_stack ''example.com/app.logf'')
      = Some (frame ''example.com/app.logf'' 5)"
    by (simp add: getCaller_logging_stack n)
  have c: False
    if "\<forall>wrapper. getCaller (\<lambda>pcs. pcs) (logging_stack wrapper)
          = callerAtSkip skip (logging_stack wrapper)" for skip
  proof -
    from that a have "callerAtSkip skip (logging_stack (dlogPackageDot @ ''Infof''))
        = Some (frame ''main.run'' 6)"
      by metis
    then have "int skip + 1 = 6"
      using callerAtSkip_logging_stack by (fastforce simp: frame_def)
    moreover from that b have "callerAtSkip skip (logging_stack ''example.com/app.logf'')
        = Some (frame ''example.com/app.logf'' 5)"
      by metis
    then have "int skip + 1 = 5"
      using callerAtSkip_logging_stack by (fastforce simp: frame_def)
    ultimately show False by simp
  qed
  from a b c show ?thesis by blast
qed

text \<open>
  C3, amended. The hook attributes the call site by stack introspection on package
  names: \<open>getCaller\<close> returns the first of the frames it examines (those of at most 25
  program counters after the 2 skipped, the last frame never being examined) whose
  function name starts with neither the logrus nor the dlog package prefix, nil when
  there is none; \<open>Fire\<close> puts this frame in place of the entry's caller when that caller
  is a function of the dlog package, and leaves the entry as it is otherwise.
\<close>

theorem Fire_caller_by_package_prefix:
  "getCaller CallersFrames stack
     = find (\<lambda>f. \<not> HasPrefix (Function f) logrusPackageDot
                  \<and> \<not> HasPrefix (Function f) dlogPackageDot)
         (butlast (CallersFrames (take 25 (drop 2 stack))))
   \<and> Fire CallersFrames stack (Some e)
     = Inr (if (\<exists>c. Caller e = Some c \<and> HasPrefix (Function c) dlogPackageDot)
            then e\<lparr>Caller := find (\<lambda>f. \<not> HasPrefix (Function f) logrusPackageDot
                                       \<and> \<not> HasPrefix (Function f) dlogPackageDot)
                              (butlast (CallersFrames (take 25 (drop 2 stack))))\<rparr>
            else e)"
  by (simp add: Fire_def getCaller_find split: option.splits)

theorem Fire_caller_by_package_prefix_witness:
  "Fire (\<lambda>pcs. pcs) (logging_stack (dlogPackageDot @ ''Infof''))
       (Some \<lparr>Logger = None, Caller = Some (frame (dlogPackageDot @ ''Infof'') 5)\<rparr>)
     = Inr \<lparr>Logger = None, Caller = Some (frame ''main.run'' 6)\<rparr>
   \<and> Fire (\<lambda>pcs. pcs) (logging_stack ''main.run'')
       (Some \<lparr>Logger = None, Caller = Some (frame ''main.run'' 6)\<rparr>)
     = Inr \<lparr>Logger = None, Caller = Some (frame ''main.run'' 6)\<rparr>"
proof -
  have n: "\<not> HasPrefix ''main.run'' logrusPackageDot" "\<not> HasPrefix ''main.run'' dlogPackageDot"
    by (simp_all add: HasPrefix_def logrusPackageDot_def dlogPackageDot_def)
  have s: "butlast (take 25 (drop 2 (logging_stack wrapper)))
      = [frame (dlogPackageDot @ ''logrusFixCallerHook.Fire'') 3,
         frame (logrusPackageDot @ ''(*Entry).log'') 4,
         frame wrapper 5, frame ''main.run'' 6, frame ''main.main'' 7]" for wrapper
    by (simp add: logging_stack_def)
  have a: "Fire (\<lambda>pcs. pcs) (logging_stack (dlogPackageDot @ ''Infof''))
       (Some \<lparr>Logger = None, Caller = Some (frame (dlogPackageDot @ ''Infof'') 5)\<rparr>)
     = Inr \<lparr>Logger = None, Caller = Some (frame ''main.run'' 6)\<rparr>"
    using Fire_caller_by_package_prefix
      [where CallersFrames = "\<lambda>pcs. pcs" and stack = "logging_stack (dlogPackageDot @ ''Infof'')"
        and e = "\<lparr>Logger = None, Caller = Some (frame (dlogPackageDot @ ''Infof'') 5)\<rparr>"]
    by (simp add: s frame_def n)
  have b: "Fire (\<lambda>pcs. pcs) (logging_stack ''main.run'')
       (Some \<lparr>Logger = None, Caller = Some (frame ''main.run'' 6)\<rparr>)
     = Inr \<lparr>Logger = None, Caller = Some (frame ''main.run'' 6)\<rparr>"
    using Fire_caller_by_package_prefix
      [where CallersFrames = "\<lambda>pcs. pcs" and stack = "logging_stack ''main.run''"
        and e = "\<lparr>Logger = None, Caller = Some (frame ''main.run'' 6)\<rparr>"]
    by (simp add: frame_def n)
  from a b show ?thesis by simp
qed

section \<open>Properties of the process handle and its controller\<close>

lemma run_Nil [simp]: "run cfg c [] = c"
  by (simp add: run_def)

lemma run_Cons [simp]: "run cfg c (e # es) = run cfg (step cfg c e) es"
  by (simp add: run_def)

lemma run_append [simp]: "run cfg c (es @ es') = run cfg (run cfg c es) es'"
  by (simp add: run_def)

lemma canInterrupt_isolated [simp]: "canInterrupt isolated"
  by (simp add: canInterrupt_def isolated_def CREATE_NEW_PROCESS_GROUP_def)

lemma canInterrupt_not_isolated [simp]: "\<not> canInterrupt not_isolated"
  by (simp add: canInterrupt_def not_isolated_def)

lemma step_phase_rank:
  "phase (step cfg c e) = phase c \<or> rank (phase c) < rank (phase (step cfg c e))"
  by (cases e)
    (auto simp: hardKill_def softInterrupt_def Let_def split: option.splits signal_result.splits)

lemma step_rank_mono: "rank (phase c) \<le> rank (phase (step cfg c e))"
  using step_phase_rank [of cfg c e] by auto

lemma entries_none:
  assumes "\<And>p. p \<in> P \<Longrightarrow> rank p = k" and "k \<le> rank (phase c)"
  shows "entries P cfg c es = 0"
  using assms(2)
proof (induction es arbitrary: c)
  case Nil
  show ?case by simp
next
  case (Cons e es)
  have "k \<le> rank (phase (step cfg c e))"
    using Cons.prems step_rank_mono [of c cfg e] by linarith
  then have rest: "entries P cfg (step cfg c e) es = 0"
    by (rule Cons.IH)
  have "\<not> (phase c \<notin> P \<and> phase (step cfg c e) \<in> P)"
  proof
    assume a: "phase c \<notin> P \<and> phase (step cfg c e) \<in> P"
    then have "phase (step cfg c e) \<noteq> phase c" by auto
    with step_phase_rank [of cfg c e] have "rank (phase c) < rank (phase (step cfg c e))"
      by simp
    moreover from a assms(1) have "rank (phase (step cfg c e)) = k" by simp
    ultimately show False using Cons.prems by simp
  qed
  with rest show ?case by simp
qed

lemma entries_at_most_once:
  assumes "\<And>p. p \<in> P \<Longrightarrow> rank p = k"
  shows "entries P cfg c es \<le> 1"
proof (induction es arbitrary: c)
  case Nil
  show ?case by simp
next
  case (Cons e es)
  show ?case
  proof (cases "phase c \<notin> P \<and> phase (step cfg c e) \<in> P")
    case True
    with assms have "k \<le> rank (phase (step cfg c e))" by simp
    with assms have "entries P cfg (step cfg c e) es = 0"
      by (rule entries_none)
    with True show ?thesis by simp
  next
    case False
    then have "entries P cfg c (e # es) = entries P cfg (step cfg c e) es" by auto
    with Cons.IH [of "step cfg c e"] show ?thesis by simp
  qed
qed

lemma step_live_or_terminal:
  assumes "rank (phase c) < 3"
  shows "rank (phase (step cfg c e)) < 3
         \<or> (phase c \<notin> {ExitedNaturally, Killed, Errored}
            \<and> phase (step cfg c e) \<in> {ExitedNaturally, Killed, Errored})"
  using assms
  by (cases e; cases "phase c")
    (auto simp: hardKill_def softInterrupt_def Let_def split: option.splits signal_result.splits)

lemma entries_terminal_once:
  assumes "rank (phase c) < 3" and "3 \<le> rank (phase (run cfg c es))"
  shows "entries {ExitedNaturally, Killed, Errored} cfg c es = 1"
  using assms
proof (induction es arbitrary: c)
  case Nil
  then show ?case by simp
next
  case (Cons e es)
  from step_live_or_terminal [OF Cons.prems(1), of cfg e] show ?case
  proof
    assume "rank (phase (step cfg c e)) < 3"
    moreover from this have "phase (step cfg c e) \<notin> {ExitedNaturally, Killed, Errored}"
      by auto
    ultimately show ?thesis
      using Cons.IH [of "step cfg c e"] Cons.prems(2) by simp
  next
    assume a: "phase c \<notin> {ExitedNaturally, Killed, Errored}
        \<and> phase (step cfg c e) \<in> {ExitedNaturally, Killed, Errored}"
    then have "3 \<le> rank (phase (step cfg c e))" by auto
    then have "entries {ExitedNaturally, Killed, Errored} cfg (step cfg c e) es = 0"
      by (intro entries_none [where k = 3]) auto
    with a show ?thesis by simp
  qed
qed

lemma counted_created: "counted created"
  by (simp add: counted_def created_def)

lemma counted_step: "counted c \<Longrightarrow> counted (step cfg c e)"
  by (cases e; cases "phase c")
    (auto simp: counted_def hardKill_def softInterrupt_def Let_def
      split: option.splits signal_result.splits)

lemma counted_run: "counted c \<Longrightarrow> counted (run cfg c es)"
  by (induction es arbitrary: c) (simp_all add: counted_step)

lemma joined_created: "joined [] created"
  by (simp add: joined_def created_def)

lemma stream_cases: "s = Stdout \<or> s = Stderr"
  by (cases s) simp_all

lemma joined_step:
  assumes "joined es c"
  shows "joined (es @ [e]) (step cfg c e)"
proof (cases e)
  case (Start err)
  with assms show ?thesis
    using stream_cases by (auto simp: joined_def split: option.splits)
next
  case (Cancel r)
  with assms show ?thesis
    by (auto simp: joined_def hardKill_def softInterrupt_def Let_def split: signal_result.splits)
next
  case GraceExpired
  with assms show ?thesis
    by (auto simp: joined_def hardKill_def)
next
  case (ProcessExit code sig)
  with assms show ?thesis
    by (auto simp: joined_def)
next
  case (RelayFinished s err)
  with assms show ?thesis
    by (auto simp: joined_def split: option.splits)
next
  case Wait
  with assms show ?thesis
    by (auto simp: joined_def split: option.splits)
qed

lemma joined_run: "joined es (run cfg created es)"
proof (induction es rule: rev_induct)
  case Nil
  show ?case by (simp add: joined_created)
next
  case (snoc e es)
  then show ?case by (simp add: joined_step)
qed

text \<open>
  C4. \<open>Wait\<close> returns only after the process has exited and every relay task has
  finished: when a \<open>Wait\<close> returns its result, and in every state in which the result
  has been returned, the exit of the process and the end of the relay task of each
  stream are among the events that came before, and no relay task is running.
\<close>

theorem Wait_returns_after_exit_and_relays:
  "(result (run cfg created es) = None \<and> result (step cfg (run cfg created es) Wait) = Some r
      \<longrightarrow> (\<exists>code sig. ProcessExit code sig \<in> set es)
          \<and> (\<forall>s. \<exists>err. RelayFinished s err \<in> set es)
          \<and> relaysRunning (run cfg created es) = {})
   \<and> (result (run cfg created es) = Some r
      \<longrightarrow> (\<exists>code sig. ProcessExit code sig \<in> set es)
          \<and> (\<forall>s. \<exists>err. RelayFinished s err \<in> set es)
          \<and> relaysRunning (run cfg created es) = {})"
proof -
  let ?c = "run cfg created es"
  have j: "joined es ?c" by (rule joined_run)
  have a: "(\<exists>code sig. ProcessExit code sig \<in> set es)
      \<and> (\<forall>s. \<exists>err. RelayFinished s err \<in> set es) \<and> relaysRunning ?c = {}"
    if "result ?c = None" and "result (step cfg ?c Wait) = Some r"
  proof -
    from that have w: "exited ?c \<noteq> None \<and> relaysRunning ?c = {}
        \<and> (phase ?c = ExitedNaturally \<or> phase ?c = Killed)"
      by (auto split: option.splits if_splits)
    with j show ?thesis
      by (auto simp: joined_def)
  qed
  have b: "(\<exists>code sig. ProcessExit code sig \<in> set es)
      \<and> (\<forall>s. \<exists>err. RelayFinished s err \<in> set es) \<and> relaysRunning ?c = {}"
    if "result ?c = Some r"
  proof -
    from that j have w: "exited ?c \<noteq> None \<and> relaysRunning ?c = {} \<and> phase ?c = Reaped"
      by (simp add: joined_def)
    with j show ?thesis
      by (auto simp: joined_def)
  qed
  from a b show ?thesis by blast
qed

theorem Wait_returns_after_exit_and_relays_witness:
  "result (run \<lparr>handle = isolated, gracePeriod = 100\<rparr> (created :: nat process)
       [Start None, ProcessExit 3 None, RelayFinished Stdout None, Wait,
        RelayFinished Stderr None]) = None
   \<and> result (step \<lparr>handle = isolated, gracePeriod = 100\<rparr>
       (run \<lparr>handle = isolated, gracePeriod = 100\<rparr> (created :: nat process)
         [Start None, ProcessExit 3 None, RelayFinished Stdout None, Wait,
          RelayFinished Stderr None]) Wait)
     = Some \<lparr>exitCode = 3, signaled = None, killedByController = False, attached = []\<rparr>
   \<and> relaysRunning (run \<lparr>handle = isolated, gracePeriod = 100\<rparr> (created :: nat process)
       [Start None, ProcessExit 3 None, RelayFinished Stdout None, Wait,
        RelayFinished Stderr None]) = {}"
proof -
  let ?cfg = "\<lparr>handle = isolated, gracePeriod = 100\<rparr>"
  let ?es = "[Start None, ProcessExit 3 None, RelayFinished Stdout None, Wait,
        RelayFinished Stderr None] :: nat event list"
  let ?r = "\<lparr>exitCode = 3, signaled = None, killedByController = False, attached = []\<rparr>
    :: nat wait_result"
  have a: "result (run ?cfg created ?es) = None"
    by code_simp
  have b: "result (step ?cfg (run ?cfg created ?es) Wait) = Some ?r"
    by code_simp
  from Wait_returns_after_exit_and_relays [of ?cfg ?es ?r] a b
  have "relaysRunning (run ?cfg created ?es) = {}"
    by blast
  with a b show ?thesis by blast
qed

lemma terminal_entries_none:
  assumes "3 \<le> rank (phase c)"
  shows "entries {ExitedNaturally} cfg c es + entries {Killed} cfg c es
         + entries {Errored} cfg c es = 0"
proof -
  have "entries {ExitedNaturally} cfg c es = 0"
    using assms by (intro entries_none [where k = 3]) auto
  moreover have "entries {Killed} cfg c es = 0"
    using assms by (intro entries_none [where k = 3]) auto
  moreover have "entries {Errored} cfg c es = 0"
    using assms by (intro entries_none [where k = 3]) auto
  ultimately show ?thesis by simp
qed

lemma terminal_entries_at_most_once:
  "entries {ExitedNaturally} cfg c es + entries {Killed} cfg c es
   + entries {Errored} cfg c es \<le> 1"
proof (induction es arbitrary: c)
  case Nil
  show ?case by simp
next
  case (Cons e es)
  show ?case
  proof (cases "3 \<le> rank (phase (step cfg c e))")
    case True
    from terminal_entries_none [OF True, of cfg es] show ?thesis
      by auto
  next
    case False
    then have "phase (step cfg c e) \<noteq> ExitedNaturally" "phase (step cfg c e) \<noteq> Killed"
      "phase (step cfg c e) \<noteq> Errored"
      by auto
    with Cons.IH [of "step cfg c e"] show ?thesis by simp
  qed
qed

lemma terminal_entries_once:
  assumes "rank (phase c) < 3" and "3 \<le> rank (phase (run cfg c es))"
  shows "entries {ExitedNaturally} cfg c es + entries {Killed} cfg c es
         + entries {Errored} cfg c es = 1"
  using assms
proof (induction es arbitrary: c)
  case Nil
  then show ?case by simp
next
  case (Cons e es)
  from step_live_or_terminal [OF Cons.prems(1), of cfg e] show ?case
  proof
    assume live: "rank (phase (step cfg c e)) < 3"
    then have "phase (step cfg c e) \<noteq> ExitedNaturally" "phase (step cfg c e) \<noteq> Killed"
      "phase (step cfg c e) \<noteq> Errored"
      by auto
    with Cons.IH [OF live] Cons.prems(2) show ?thesis by simp
  next
    assume a: "phase c \<notin> {ExitedNaturally, Killed, Errored}
        \<and> phase (step cfg c e) \<in> {ExitedNaturally, Killed, Errored}"
    then have "3 \<le> rank (phase (step cfg c e))" by auto
    from terminal_entries_none [OF this, of cfg es] a show ?thesis by auto
  qed
qed

lemma step_terminal_stable:
  assumes "phase c \<in> {ExitedNaturally, Killed, Errored, Reaped}"
  shows "phase (step cfg c e) = phase c \<or> (phase c \<noteq> Errored \<and> phase (step cfg c e) = Reaped)"
  using assms by (cases e) (auto split: option.splits)

lemma run_terminal_stable:
  assumes "phase c \<in> {ExitedNaturally, Killed, Errored, Reaped}"
  shows "phase (run cfg c es) = phase c \<or> (phase c \<noteq> Errored \<and> phase (run cfg c es) = Reaped)"
  using assms
proof (induction es arbitrary: c)
  case Nil
  show ?case by simp
next
  case (Cons e es)
  from step_terminal_stable [OF Cons.prems, of cfg e]
  have "phase (step cfg c e) \<in> {ExitedNaturally, Killed, Errored, Reaped}"
    using Cons.prems by auto
  from Cons.IH [OF this] step_terminal_stable [OF Cons.prems, of cfg e]
  show ?case by auto
qed

lemma run_rank_mono: "rank (phase c) \<le> rank (phase (run cfg c es))"
proof (induction es arbitrary: c)
  case Nil
  show ?case by simp
next
  case (Cons e es)
  from step_rank_mono [of c cfg e] Cons.IH [of "step cfg c e"] show ?case by simp
qed

lemma run_started:
  assumes "Start r \<in> set es"
  shows "1 \<le> rank (phase (run cfg c es))"
  using assms
proof (induction es arbitrary: c)
  case Nil
  then show ?case by simp
next
  case (Cons e es)
  show ?case
  proof (cases "e = Start r")
    case True
    have "1 \<le> rank (phase (step cfg c (Start r)))"
      by (cases "phase c") (auto split: option.splits)
    with run_rank_mono [of "step cfg c (Start r)" cfg es] True show ?thesis by simp
  next
    case False
    with Cons show ?thesis by simp
  qed
qed

lemma step_exit_terminal:
  assumes "1 \<le> rank (phase c)"
  shows "3 \<le> rank (phase (step cfg c (ProcessExit code sig)))"
  using assms by (cases "phase c") auto

lemma hardKills_entries:
  "hardKills (run cfg c es) = hardKills c + entries {Killed} cfg c es"
proof (induction es arbitrary: c)
  case Nil
  show ?case by simp
next
  case (Cons e es)
  have "hardKills (step cfg c e)
      = hardKills c + (if phase c \<notin> {Killed} \<and> phase (step cfg c e) \<in> {Killed} then 1 else 0)"
    by (cases e)
      (auto simp: hardKill_def softInterrupt_def Let_def split: option.splits signal_result.splits)
  with Cons.IH [of "step cfg c e"] show ?case by simp
qed

text \<open>
  C5. Along every run of a handle, whatever the order of the events and however often
  cancellation is requested: the controller enters \<open>InterruptSent\<close> at most once and
  \<open>Killed\<close> at most once. The process has exactly one terminal state: the
  transitions into Exited, into Killed and into Errored, each counted from whatever
  phase it leaves, are at most one altogether, and exactly one in every run that has
  left the live phases, as every run does in which the process is started and its exit
  reported; a terminal state once reached is never left for another one, only for
  \<open>Reaped\<close>, which is never left. \<open>SendInterrupt\<close> is called at most once, the hard
  kill is issued at most once, namely when \<open>Killed\<close> is entered, and the resources are
  released at most once.
\<close>

theorem terminal_state_exactly_once:
  "entries {InterruptSent} cfg created es \<le> 1
   \<and> entries {Killed} cfg created es \<le> 1
   \<and> entries {ExitedNaturally, Killed, Errored} cfg created es \<le> 1
   \<and> (phase (run cfg created es) \<in> {ExitedNaturally, Killed, Errored, Reaped} \<longrightarrow>
        entries {ExitedNaturally, Killed, Errored} cfg created es = 1)
   \<and> entries {ExitedNaturally} cfg created es + entries {Killed} cfg created es
        + entries {Errored} cfg created es \<le> 1
   \<and> (phase (run cfg created es) \<in> {ExitedNaturally, Killed, Errored, Reaped} \<longrightarrow>
        entries {ExitedNaturally} cfg created es + entries {Killed} cfg created es
          + entries {Errored} cfg created es = 1)
   \<and> (phase (run cfg created es) \<in> {ExitedNaturally, Killed, Errored, Reaped} \<longrightarrow>
        phase (run cfg created (es @ es')) = phase (run cfg created es)
        \<or> (phase (run cfg created es) \<noteq> Errored
            \<and> phase (run cfg created (es @ es')) = Reaped))
   \<and> (Start r \<in> set es \<longrightarrow>
        entries {ExitedNaturally} cfg created (es @ ProcessExit code sig # es')
          + entries {Killed} cfg created (es @ ProcessExit code sig # es')
          + entries {Errored} cfg created (es @ ProcessExit code sig # es') = 1)
   \<and> interruptsSent (run cfg created es) \<le> 1
   \<and> hardKills (run cfg created es) \<le> 1
   \<and> hardKills (run cfg created es) = entries {Killed} cfg created es
   \<and> released (run cfg created es) \<le> 1"
proof -
  have live: "rank (phase (created :: 'a process)) < 3" by (simp add: created_def)
  have a: "entries {InterruptSent} cfg created es \<le> 1"
    by (rule entries_at_most_once [where k = 2]) simp
  have b: "entries {Killed} cfg created es \<le> 1"
    by (rule entries_at_most_once [where k = 3]) simp
  have c: "entries {ExitedNaturally, Killed, Errored} cfg created es \<le> 1"
    by (rule entries_at_most_once [where k = 3]) auto
  have d: "entries {ExitedNaturally, Killed, Errored} cfg created es = 1"
    if "phase (run cfg created es) \<in> {ExitedNaturally, Killed, Errored, Reaped}"
  proof (rule entries_terminal_once [OF live])
    from that show "3 \<le> rank (phase (run cfg created es))" by auto
  qed
  have e: "entries {ExitedNaturally} cfg created es + entries {Killed} cfg created es
      + entries {Errored} cfg created es \<le> 1"
    by (rule terminal_entries_at_most_once)
  have f: "entries {ExitedNaturally} cfg created es + entries {Killed} cfg created es
      + entries {Errored} cfg created es = 1"
    if "phase (run cfg created es) \<in> {ExitedNaturally, Killed, Errored, Reaped}"
  proof (rule terminal_entries_once [OF live])
    from that show "3 \<le> rank (phase (run cfg created es))" by auto
  qed
  have g: "phase (run cfg created (es @ es')) = phase (run cfg created es)
      \<or> (phase (run cfg created es) \<noteq> Errored \<and> phase (run cfg created (es @ es')) = Reaped)"
    if "phase (run cfg created es) \<in> {ExitedNaturally, Killed, Errored, Reaped}"
    using run_terminal_stable [OF that, of cfg es'] by (simp del: run_Cons)
  have h: "entries {ExitedNaturally} cfg created (es @ ProcessExit code sig # es')
      + entries {Killed} cfg created (es @ ProcessExit code sig # es')
      + entries {Errored} cfg created (es @ ProcessExit code sig # es') = 1"
    if "Start r \<in> set es"
  proof (rule terminal_entries_once [OF live])
    have "1 \<le> rank (phase (run cfg created es))"
      by (rule run_started [OF that])
    then have "3 \<le> rank (phase (step cfg (run cfg created es) (ProcessExit code sig)))"
      by (rule step_exit_terminal)
    also have "\<dots> \<le> rank (phase (run cfg (step cfg (run cfg created es) (ProcessExit code sig)) es'))"
      by (rule run_rank_mono)
    finally show "3 \<le> rank (phase (run cfg created (es @ ProcessExit code sig # es')))"
      by simp
  qed
  have "counted (run cfg created es)"
    by (rule counted_run [OF counted_created])
  then have i: "interruptsSent (run cfg created es) \<le> 1" "hardKills (run cfg created es) \<le> 1"
    "released (run cfg created es) \<le> 1"
    by (simp_all add: counted_def)
  have j: "hardKills (run cfg created es) = entries {Killed} cfg created es"
    using hardKills_entries [of cfg created es] by (simp add: created_def)
  from a b c d e f g h i j show ?thesis by blast
qed

theorem terminal_state_exactly_once_witness:
  "phase (run \<lparr>handle = isolated, gracePeriod = 100\<rparr> (created :: nat process)
       [Start None, Cancel Delivered, Cancel Delivered, GraceExpired, Cancel Delivered,
        GraceExpired, ProcessExit (- 1) (Some 9)]) = Killed
   \<and> entries {ExitedNaturally, Killed, Errored} \<lparr>handle = isolated, gracePeriod = 100\<rparr>
       (created :: nat process)
       [Start None, Cancel Delivered, Cancel Delivered, GraceExpired, Cancel Delivered,
        GraceExpired, ProcessExit (- 1) (Some 9)] = 1
   \<and> entries {ExitedNaturally} \<lparr>handle = isolated, gracePeriod = 100\<rparr> (created :: nat process)
       [Start None, Cancel Delivered, Cancel Delivered, GraceExpired, Cancel Delivered,
        GraceExpired, ProcessExit (- 1) (Some 9)]
     + entries {Killed} \<lparr>handle = isolated, gracePeriod = 100\<rparr> (created :: nat process)
       [Start None, Cancel Delivered, Cancel Delivered, GraceExpired, Cancel Delivered,
        GraceExpired, ProcessExit (- 1) (Some 9)]
     + entries {Errored} \<lparr>handle = isolated, gracePeriod = 100\<rparr> (created :: nat process)
       [Start None, Cancel Delivered, Cancel Delivered, GraceExpired, Cancel Delivered,
        GraceExpired, ProcessExit (- 1) (Some 9)] = 1
   \<and> entries {ExitedNaturally} \<lparr>handle = isolated, gracePeriod = 100\<rparr> (created :: nat process)
       ([Start None, Cancel Delivered] @ ProcessExit 0 None # [GraceExpired, Cancel Delivered])
     + entries {Killed} \<lparr>handle = isolated, gracePeriod = 100\<rparr> (created :: nat process)
       ([Start None, Cancel Delivered] @ ProcessExit 0 None # [GraceExpired, Cancel Delivered])
     + entries {Errored} \<lparr>handle = isolated, gracePeriod = 100\<rparr> (created :: nat process)
       ([Start None, Cancel Delivered] @ ProcessExit 0 None # [GraceExpired, Cancel Delivered])
     = 1"
proof -
  let ?cfg = "\<lparr>handle = isolated, gracePeriod = 100\<rparr>"
  let ?es = "[Start None, Cancel Delivered, Cancel Delivered, GraceExpired, Cancel Delivered,
        GraceExpired, ProcessExit (- 1) (Some 9)] :: nat event list"
  let ?pre = "[Start None, Cancel Delivered] :: nat event list"
  have p: "phase (run ?cfg created ?es) = Killed"
    by code_simp
  then have m: "phase (run ?cfg created ?es) \<in> {ExitedNaturally, Killed, Errored, Reaped}"
    by (simp only: insert_iff simp_thms)
  have s: "Start None \<in> set ?pre" by simp
  note t = terminal_state_exactly_once [of ?cfg ?es]
  from t m have one: "entries {ExitedNaturally, Killed, Errored} ?cfg created ?es = 1"
    by blast
  from t m have two: "entries {ExitedNaturally} ?cfg created ?es + entries {Killed} ?cfg created ?es
      + entries {Errored} ?cfg created ?es = 1"
    by blast
  from terminal_state_exactly_once
      [where cfg = ?cfg and es = ?pre and r = None and code = 0 and sig = None
        and es' = "[GraceExpired, Cancel Delivered]"] s
  have three: "entries {ExitedNaturally} ?cfg created
        (?pre @ ProcessExit 0 None # [GraceExpired, Cancel Delivered])
      + entries {Killed} ?cfg created (?pre @ ProcessExit 0 None # [GraceExpired, Cancel Delivered])
      + entries {Errored} ?cfg created (?pre @ ProcessExit 0 None # [GraceExpired, Cancel Delivered])
      = 1"
    by blast
  from p one two three show ?thesis by blast
qed









lemma uncancelled_run:
  assumes "uncancelled c" and "\<forall>r. Cancel r \<notin> set es"
    and "\<forall>code sig. ProcessExit code sig \<notin> set es"
  shows "uncancelled (run cfg c es)"
  using assms
proof (induction es arbitrary: c)
  case Nil
  then show ?case by simp
next
  case (Cons e es)
  from Cons.prems have "uncancelled (step cfg c e)"
    by (cases e) (auto simp: uncancelled_def split: option.splits)
  with Cons show ?case by simp
qed

lemma exitedWith_step: "exitedWith code sig c \<Longrightarrow> exitedWith code sig (step cfg c e)"
  by (cases e) (auto simp: exitedWith_def split: option.splits)

lemma exitedWith_run: "exitedWith code sig c \<Longrightarrow> exitedWith code sig (run cfg c es)"
  by (induction es arbitrary: c) (simp_all add: exitedWith_step)

lemma uncancelled_exit:
  "uncancelled c \<Longrightarrow> exitedWith code sig (step cfg c (ProcessExit code sig))"
  by (simp add: uncancelled_def exitedWith_def)

lemma step_relaysRunning:
  assumes "phase c \<noteq> Created"
  shows "phase (step cfg c e) \<noteq> Created
    \<and> relaysRunning (step cfg c e)
        = relaysRunning c - {s. \<exists>err. e = RelayFinished s err}"
  using assms
  by (cases e)
    (auto simp: hardKill_def softInterrupt_def Let_def split: option.splits signal_result.splits)

lemma run_relaysRunning:
  assumes "phase c \<noteq> Created"
  shows "relaysRunning (run cfg c es)
         = relaysRunning c - {s. \<exists>err. RelayFinished s err \<in> set es}"
  using assms
proof (induction es arbitrary: c)
  case Nil
  show ?case by simp
next
  case (Cons e es)
  from step_relaysRunning [OF Cons.prems, of cfg e] Cons.IH [of "step cfg c e"]
  show ?case by auto
qed

text \<open>
  C7. A process that is started and exits, with no cancellation along the run: every
  result \<open>Wait\<close> returns has the exit code (and signal) the operating system reported
  for the process and \<open>killedByController\<close> false; and once both relay tasks have
  finished, \<open>Wait\<close> does return such a result.
\<close>

theorem Wait_without_cancellation:
  assumes "\<forall>r. Cancel r \<notin> set (pre @ post)"
    and "\<forall>code' sig'. ProcessExit code' sig' \<notin> set pre"
  shows "(\<forall>r. result (run cfg created (Start None # pre @ ProcessExit code sig # post)) = Some r
            \<longrightarrow> exitCode r = code \<and> signaled r = sig \<and> \<not> killedByController r)
       \<and> ((\<forall>s. \<exists>err. RelayFinished s err \<in> set (pre @ post)) \<longrightarrow>
            (\<exists>r. result (run cfg created (Start None # pre @ ProcessExit code sig # post @ [Wait]))
                   = Some r
                 \<and> exitCode r = code \<and> signaled r = sig \<and> \<not> killedByController r))"
proof -
  define c0 where "c0 = step cfg (created :: 'a process) (Start None)"
  define c1 where "c1 = run cfg c0 pre"
  define c2 where "c2 = step cfg c1 (ProcessExit code sig)"
  define c3 where "c3 = run cfg c2 post"
  have c0: "uncancelled c0" "phase c0 \<noteq> Created" "relaysRunning c0 = {Stdout, Stderr}"
    by (simp_all add: c0_def uncancelled_def created_def)
  have "uncancelled c1"
    unfolding c1_def using c0(1) assms by (intro uncancelled_run) auto
  then have "exitedWith code sig c2"
    unfolding c2_def by (rule uncancelled_exit)
  then have c3: "exitedWith code sig c3"
    unfolding c3_def by (rule exitedWith_run)
  have run3: "run cfg created (Start None # pre @ ProcessExit code sig # post) = c3"
    by (simp add: c0_def c1_def c2_def c3_def)
  have run3': "c3 = run cfg c0 (pre @ ProcessExit code sig # post)"
    by (simp add: c1_def c2_def c3_def)
  have run4: "run cfg created (Start None # pre @ ProcessExit code sig # post @ [Wait])
      = step cfg c3 Wait"
    by (simp add: c0_def c1_def c2_def c3_def)
  have first: "exitCode r = code \<and> signaled r = sig \<and> \<not> killedByController r"
    if "result c3 = Some r" for r
    using c3 that by (simp add: exitedWith_def)
  have second: "\<exists>r. result (step cfg c3 Wait) = Some r
      \<and> exitCode r = code \<and> signaled r = sig \<and> \<not> killedByController r"
    if fin: "\<forall>s. \<exists>err. RelayFinished s err \<in> set (pre @ post)"
  proof -
    have "relaysRunning c3
        = relaysRunning c0
          - {s. \<exists>err. RelayFinished s err \<in> set (pre @ ProcessExit code sig # post)}"
      unfolding run3' by (rule run_relaysRunning [OF c0(2)])
    moreover have "{s. \<exists>err. RelayFinished s err \<in> set (pre @ ProcessExit code sig # post)}
        = UNIV"
      using fin by auto
    ultimately have "relaysRunning c3 = {}" by simp
    with c3 show ?thesis
      by (auto simp: exitedWith_def)
  qed
  from first second show ?thesis
    unfolding run3 run4 by blast
qed

theorem Wait_without_cancellation_witness:
  "\<exists>r. result (run \<lparr>handle = isolated, gracePeriod = 100\<rparr> (created :: nat process)
         [Start None, RelayFinished Stdout None, ProcessExit 3 None,
          RelayFinished Stderr None, Wait]) = Some r
       \<and> exitCode r = 3 \<and> signaled r = None \<and> \<not> killedByController r"
proof -
  let ?cfg = "\<lparr>handle = isolated, gracePeriod = 100\<rparr>"
  let ?pre = "[RelayFinished Stdout None] :: nat event list"
  let ?post = "[RelayFinished Stderr None] :: nat event list"
  have a: "\<forall>r. Cancel r \<notin> set (?pre @ ?post)" by simp
  have b: "\<forall>code' sig'. ProcessExit code' sig' \<notin> set ?pre" by simp
  have c: "\<forall>s. \<exists>err. RelayFinished s err \<in> set (?pre @ ?post)"
    using stream_cases by auto
  have d: "Start None # ?pre @ ProcessExit 3 None # ?post @ [Wait]
      = [Start None, RelayFinished Stdout None, ProcessExit 3 None,
         RelayFinished Stderr None, Wait]"
    by simp
  from Wait_without_cancellation [OF a b, of ?cfg 3 None] c
  show ?thesis unfolding d by blast
qed

end
